theory Spec2Isabelle
  imports Main "HOL-Library.Multiset" "HOL-Library.AList" "HOL-Library.Countable"
begin

unbundle bit_operations_syntax

section \<open>Python values used by codec.py\<close>

text \<open>
  Exceptions are values: a function of codec.py that can raise returns
  \<open>error + 'a\<close>, with \<open>Inl\<close> carrying the exception.
\<close>

datatype error = ValueError | KeyError | IndexError

text \<open>Sequencing: the first exception raised ends the computation.\<close>

definition and_then :: "error + 'a \<Rightarrow> ('a \<Rightarrow> error + 'b) \<Rightarrow> error + 'b" where
  "and_then m f = (case m of Inl e \<Rightarrow> Inl e | Inr x \<Rightarrow> f x)"

text \<open>
  \<open>int(c)\<close> for a one-character string \<open>c\<close>: the decimal digits give their value,
  every other character raises ValueError.
\<close>

definition python_int :: "char \<Rightarrow> error + int" where
  "python_int c =
     (if c \<in> set ''0123456789'' then Inr (int (of_char c) - 48) else Inl ValueError)"

text \<open>\<open>xs[i]\<close> for a non-negative index: IndexError out of range.\<close>

definition getitem :: "'a list \<Rightarrow> nat \<Rightarrow> error + 'a" where
  "getitem xs i = (if i < length xs then Inr (xs ! i) else Inl IndexError)"

text \<open>
  The position a Python integer index denotes in a list of length \<open>n\<close>: negative
  indices count from the end, anything else out of range raises IndexError.
\<close>

definition list_index :: "nat \<Rightarrow> int \<Rightarrow> error + nat" where
  "list_index n i =
     (let j = (if i < 0 then int n + i else i)
      in if 0 \<le> j \<and> j < int n then Inr (nat j) else Inl IndexError)"

section \<open>Hamming(7,4)\<close>

text \<open>\<open>_bitstr_to_int_list\<close>: \<open>[1 if b == "1" else 0 for b in bits]\<close>.\<close>

definition bitstr_to_int_list :: "string \<Rightarrow> int list" where
  "bitstr_to_int_list bits = map (\<lambda>b. if b = CHR ''1'' then 1 else 0) bits"

text \<open>\<open>_int_list_to_bitstr\<close>: \<open>"".join("1" if b else "0" for b in bits)\<close>.\<close>

definition int_list_to_bitstr :: "int list \<Rightarrow> string" where
  "int_list_to_bitstr bits = map (\<lambda>b. if b \<noteq> 0 then CHR ''1'' else CHR ''0'') bits"

text \<open>
  The body of the loop of \<open>hamming_7_4_encode\<close> at index \<open>i\<close>: the four reads
  \<open>int(bitstring_padded[i + k])\<close> in the source's order, the three parities and the
  codeword.
\<close>

definition hamming_7_4_encode_block :: "string \<Rightarrow> nat \<Rightarrow> error + int list" where
  "hamming_7_4_encode_block padded i =
     and_then (getitem padded i) (\<lambda>c1.
     and_then (python_int c1) (\<lambda>d1.
     and_then (getitem padded (i + 1)) (\<lambda>c2.
     and_then (python_int c2) (\<lambda>d2.
     and_then (getitem padded (i + 2)) (\<lambda>c3.
     and_then (python_int c3) (\<lambda>d3.
     and_then (getitem padded (i + 3)) (\<lambda>c4.
     and_then (python_int c4) (\<lambda>d4.
       (let p1 = d1 XOR d2 XOR d4;
            p2 = d1 XOR d3 XOR d4;
            p4 = d2 XOR d3 XOR d4
        in Inr [p1, p2, d1, p4, d2, d3, d4])))))))))"

text \<open>\<open>for i in range(0, len(bitstring_padded), 4)\<close>, with \<open>encoded_bits\<close> threaded.\<close>

function hamming_7_4_encode_loop :: "string \<Rightarrow> nat \<Rightarrow> int list \<Rightarrow> error + int list" where
  "hamming_7_4_encode_loop padded i encoded =
     (if i < length padded then
        (case hamming_7_4_encode_block padded i of
           Inl e \<Rightarrow> Inl e
         | Inr codeword \<Rightarrow> hamming_7_4_encode_loop padded (i + 4) (encoded @ codeword))
      else Inr encoded)"
  by pat_completeness auto
termination
  by (relation "measure (\<lambda>(padded, i, encoded). length padded - i)") auto

declare hamming_7_4_encode_loop.simps [simp del]

definition hamming_7_4_encode :: "string \<Rightarrow> error + (string \<times> int)" where
  "hamming_7_4_encode bitstring =
     (if bitstring = [] then Inr ([], 0)
      else
        let pad_bits = (4 - (length bitstring mod 4)) mod 4;
            bitstring_padded = bitstring @ replicate pad_bits (CHR ''0'')
        in case hamming_7_4_encode_loop bitstring_padded 0 [] of
             Inl e \<Rightarrow> Inl e
           | Inr encoded \<Rightarrow> Inr (int_list_to_bitstr encoded, int pad_bits))"

text \<open>
  The body of the loop of \<open>hamming_7_4_decode\<close> at index \<open>i\<close>. The unpacking
  \<open>b1, ..., b7 = bits[i:i + 7]\<close> raises ValueError unless the slice has seven
  elements; \<open>bits[idx] ^= 1\<close> indexes with a Python integer. The result is the
  list \<open>bits\<close> after the in-place correction and the four data bits.
\<close>

definition hamming_7_4_decode_block :: "int list \<Rightarrow> nat \<Rightarrow> error + (int list \<times> int list)" where
  "hamming_7_4_decode_block bits i =
     (let blk = take 7 (drop i bits) in
      if length blk \<noteq> 7 then Inl ValueError
      else
        let s1 = blk ! 0 XOR blk ! 2 XOR blk ! 4 XOR blk ! 6;
            s2 = blk ! 1 XOR blk ! 2 XOR blk ! 5 XOR blk ! 6;
            s4 = blk ! 3 XOR blk ! 4 XOR blk ! 5 XOR blk ! 6;
            error_pos = s1 + push_bit 1 s2 + push_bit 2 s4
        in if error_pos \<noteq> 0 then
             (case list_index (length bits) (int i + error_pos - 1) of
                Inl e \<Rightarrow> Inl e
              | Inr idx \<Rightarrow>
                  let bits' = bits[idx := bits ! idx XOR 1];
                      blk' = take 7 (drop i bits')
                  in if length blk' \<noteq> 7 then Inl ValueError
                     else Inr (bits', [blk' ! 2, blk' ! 4, blk' ! 5, blk' ! 6]))
           else Inr (bits, [blk ! 2, blk ! 4, blk ! 5, blk ! 6]))"

lemma hamming_7_4_decode_block_length:
  "hamming_7_4_decode_block bits i = Inr (bits', quad) \<Longrightarrow> length bits' = length bits"
  by (auto simp: hamming_7_4_decode_block_def Let_def split: if_splits sum.splits)

function hamming_7_4_decode_loop :: "int list \<Rightarrow> nat \<Rightarrow> int list \<Rightarrow> error + int list" where
  "hamming_7_4_decode_loop bits i data_bits =
     (if i < length bits then
        (case hamming_7_4_decode_block bits i of
           Inl e \<Rightarrow> Inl e
         | Inr (bits', quad) \<Rightarrow> hamming_7_4_decode_loop bits' (i + 7) (data_bits @ quad))
      else Inr data_bits)"
  by pat_completeness auto
termination
  by (relation "measure (\<lambda>(bits, i, data_bits). length bits - i)")
     (auto dest: hamming_7_4_decode_block_length)

declare hamming_7_4_decode_loop.simps [simp del]

text \<open>\<open>data_bits[:-pad_bits]\<close> under the guard \<open>pad_bits > 0\<close>.\<close>

definition strip_pad :: "int list \<Rightarrow> int \<Rightarrow> int list" where
  "strip_pad data_bits pad_bits =
     (if pad_bits > 0 then take (length data_bits - nat pad_bits) data_bits else data_bits)"

definition hamming_7_4_decode :: "string \<Rightarrow> int \<Rightarrow> error + string" where
  "hamming_7_4_decode encoded_bits pad_bits =
     (if encoded_bits = [] then Inr []
      else if length encoded_bits mod 7 \<noteq> 0 then Inl ValueError
      else
        case hamming_7_4_decode_loop (bitstr_to_int_list encoded_bits) 0 [] of
          Inl e \<Rightarrow> Inl e
        | Inr data_bits \<Rightarrow> Inr (int_list_to_bitstr (strip_pad data_bits pad_bits)))"

text \<open>The loop of \<open>hamming_7_4_decode_no_correction\<close>: unpack and extract only.\<close>

definition hamming_7_4_extract_block :: "int list \<Rightarrow> nat \<Rightarrow> error + int list" where
  "hamming_7_4_extract_block bits i =
     (let blk = take 7 (drop i bits) in
      if length blk \<noteq> 7 then Inl ValueError
      else Inr [blk ! 2, blk ! 4, blk ! 5, blk ! 6])"

function hamming_7_4_extract_loop :: "int list \<Rightarrow> nat \<Rightarrow> int list \<Rightarrow> error + int list" where
  "hamming_7_4_extract_loop bits i data_bits =
     (if i < length bits then
        (case hamming_7_4_extract_block bits i of
           Inl e \<Rightarrow> Inl e
         | Inr quad \<Rightarrow> hamming_7_4_extract_loop bits (i + 7) (data_bits @ quad))
      else Inr data_bits)"
  by pat_completeness auto
termination
  by (relation "measure (\<lambda>(bits, i, data_bits). length bits - i)") auto

declare hamming_7_4_extract_loop.simps [simp del]

definition hamming_7_4_decode_no_correction :: "string \<Rightarrow> int \<Rightarrow> error + string" where
  "hamming_7_4_decode_no_correction encoded_bits pad_bits =
     (if encoded_bits = [] then Inr []
      else if length encoded_bits mod 7 \<noteq> 0 then Inl ValueError
      else
        case hamming_7_4_extract_loop (bitstr_to_int_list encoded_bits) 0 [] of
          Inl e \<Rightarrow> Inl e
        | Inr data_bits \<Rightarrow> Inr (int_list_to_bitstr (strip_pad data_bits pad_bits)))"

section \<open>Corruption simulator\<close>

text \<open>The flip of \<open>add_errors\<close>: \<open>"0" if bits[i] == "1" else "1"\<close>.\<close>

definition flip_char :: "char \<Rightarrow> char" where
  "flip_char c = (if c = CHR ''1'' then CHR ''0'' else CHR ''1'')"

text \<open>
  \<open>for i in range(start_index, len(bits), interval)\<close>, with the list \<open>bits\<close>
  threaded. \<open>add_errors\<close> reaches the loop only with \<open>interval > 0\<close>.
\<close>

function add_errors_loop :: "string \<Rightarrow> nat \<Rightarrow> nat \<Rightarrow> string" where
  "add_errors_loop bits i interval =
     (if 0 < interval \<and> i < length bits
      then add_errors_loop (bits[i := flip_char (bits ! i)]) (i + interval) interval
      else bits)"
  by pat_completeness auto
termination
  by (relation "measure (\<lambda>(bits, i, interval). length bits - i)") auto

declare add_errors_loop.simps [simp del]

text \<open>
  \<open>random.seed(seed)\<close> followed by \<open>random.randint(a, b)\<close>. The generator is
  Python's, not the repository's: its raw draw for a seed and a range width is the
  parameter \<open>draw\<close>, and \<open>randint\<close> returns \<open>a\<close> plus a number below the
  width \<open>b - a + 1\<close>, as \<open>random.randrange\<close> does. Every result
  \<open>a \<le> N \<le> b\<close> of the library is \<open>randint draw seed a b\<close> for some \<open>draw\<close>.
\<close>

definition randint :: "(int \<Rightarrow> nat \<Rightarrow> nat) \<Rightarrow> int \<Rightarrow> int \<Rightarrow> int \<Rightarrow> int" where
  "randint draw seed a b = a + int (draw seed (nat (b - a + 1)) mod nat (b - a + 1))"

definition add_errors :: "(int \<Rightarrow> nat \<Rightarrow> nat) \<Rightarrow> string \<Rightarrow> int \<Rightarrow> int \<Rightarrow> string" where
  "add_errors draw bitstring interval seed =
     (if bitstring = [] \<or> interval \<le> 0 then bitstring
      else
        let start_index =
              (if interval > 1 then randint draw seed 0 (max 0 (interval - 1)) else 0)
        in add_errors_loop bitstring (nat start_index) (nat interval))"

section \<open>The heap queue of the Python library\<close>

text \<open>
  \<open>heapq\<close> as CPython's \<open>heapq.py\<close> writes it, on a list and a comparison
  \<open>lt\<close> (the \<open>__lt__\<close> of the elements). \<open>_siftdown\<close> and \<open>_siftup\<close> are
  private: \<open>heappush\<close>, \<open>heappop\<close> and \<open>heapify\<close> call them only with
  \<open>pos < len(heap)\<close>, where every index they read is in range. \<open>heappop\<close> on
  an empty list raises IndexError.
\<close>

function siftdown_loop :: "('x \<Rightarrow> 'x \<Rightarrow> bool) \<Rightarrow> 'x list \<Rightarrow> nat \<Rightarrow> nat \<Rightarrow> 'x \<Rightarrow> 'x list" where
  "siftdown_loop lt heap startpos pos newitem =
     (if pos > startpos then
        (let parentpos = (pos - 1) div 2;
             parent = heap ! parentpos
         in if lt newitem parent
            then siftdown_loop lt (heap[pos := parent]) startpos parentpos newitem
            else heap[pos := newitem])
      else heap[pos := newitem])"
  by pat_completeness auto
termination
  by (relation "measure (\<lambda>(lt, heap, startpos, pos, newitem). pos)") auto

declare siftdown_loop.simps [simp del]

definition siftdown :: "('x \<Rightarrow> 'x \<Rightarrow> bool) \<Rightarrow> 'x list \<Rightarrow> nat \<Rightarrow> nat \<Rightarrow> 'x list" where
  "siftdown lt heap startpos pos = siftdown_loop lt heap startpos pos (heap ! pos)"

function siftup_loop :: "('x \<Rightarrow> 'x \<Rightarrow> bool) \<Rightarrow> 'x list \<Rightarrow> nat \<Rightarrow> 'x list \<times> nat" where
  "siftup_loop lt heap pos =
     (let endpos = length heap;
          childpos = 2 * pos + 1
      in if childpos < endpos then
           (let rightpos = childpos + 1;
                childpos' = (if rightpos < endpos \<and> \<not> lt (heap ! childpos) (heap ! rightpos)
                             then rightpos else childpos)
            in siftup_loop lt (heap[pos := heap ! childpos']) childpos')
         else (heap, pos))"
  by pat_completeness auto
termination
  by (relation "measure (\<lambda>(lt, heap, pos). length heap - pos)") (auto simp: Let_def)

declare siftup_loop.simps [simp del]

definition siftup :: "('x \<Rightarrow> 'x \<Rightarrow> bool) \<Rightarrow> 'x list \<Rightarrow> nat \<Rightarrow> 'x list" where
  "siftup lt heap pos =
     (let newitem = heap ! pos;
          (heap', pos') = siftup_loop lt heap pos
      in siftdown lt (heap'[pos' := newitem]) pos pos')"

definition heappush :: "('x \<Rightarrow> 'x \<Rightarrow> bool) \<Rightarrow> 'x list \<Rightarrow> 'x \<Rightarrow> 'x list" where
  "heappush lt heap item = siftdown lt (heap @ [item]) 0 (length heap)"

definition heappop :: "('x \<Rightarrow> 'x \<Rightarrow> bool) \<Rightarrow> 'x list \<Rightarrow> error + ('x \<times> 'x list)" where
  "heappop lt heap =
     (if heap = [] then Inl IndexError
      else
        let lastelt = last heap;
            heap' = butlast heap
        in if heap' \<noteq> [] then Inr (heap' ! 0, siftup lt (heap'[0 := lastelt]) 0)
           else Inr (lastelt, heap'))"

definition heapify :: "('x \<Rightarrow> 'x \<Rightarrow> bool) \<Rightarrow> 'x list \<Rightarrow> 'x list" where
  "heapify lt x = fold (\<lambda>i heap. siftup lt heap i) (rev [0..<length x div 2]) x"

subsection \<open>The heap operations keep the elements\<close>

lemma mset_siftdown_loop:
  "pos < length heap \<Longrightarrow>
   mset (siftdown_loop lt heap startpos pos newitem) = mset (heap[pos := newitem])"
proof (induction lt heap startpos pos newitem rule: siftdown_loop.induct)
  case (1 lt heap startpos pos newitem)
  show ?case
  proof (cases "pos > startpos \<and> lt newitem (heap ! ((pos - 1) div 2))")
    case False
    then show ?thesis by (subst siftdown_loop.simps) (auto simp: Let_def)
  next
    case True
    define pp where "pp = (pos - 1) div 2"
    have pp: "pp < pos" using True by (simp add: pp_def) arith
    have "mset (siftdown_loop lt (heap[pos := heap ! pp]) startpos pp newitem) =
        mset (heap[pos := heap ! pp, pp := newitem])"
      using "1.IH"[of pp "heap ! pp"] True pp "1.prems" by (simp add: pp_def)
    also have "\<dots> = mset (heap[pos := newitem])"
    proof -
      let ?g = "heap[pos := newitem]"
      have "mset (?g[pp := ?g ! pos, pos := ?g ! pp]) = mset ?g"
        using pp "1.prems" by (intro mset_swap) simp_all
      moreover have "?g[pp := ?g ! pos, pos := ?g ! pp] = heap[pos := heap ! pp, pp := newitem]"
        using pp "1.prems" by (intro nth_equalityI) (auto simp: nth_list_update)
      ultimately show ?thesis by simp
    qed
    finally show ?thesis
      using True by (subst siftdown_loop.simps) (simp add: Let_def pp_def)
  qed
qed

lemma mset_siftdown: "pos < length heap \<Longrightarrow> mset (siftdown lt heap startpos pos) = mset heap"
  by (simp add: siftdown_def mset_siftdown_loop)

lemma mset_move:
  assumes "i < length h" "j < length h"
  shows "mset (h[i := h ! j, j := x]) = mset (h[i := x])"
proof (cases "i = j")
  case True
  then show ?thesis by simp
next
  case False
  let ?g = "h[i := x]"
  have "mset (?g[j := ?g ! i, i := ?g ! j]) = mset ?g"
    using assms by (intro mset_swap) simp_all
  moreover have "?g[j := ?g ! i, i := ?g ! j] = h[i := h ! j, j := x]"
    using assms False by (intro nth_equalityI) (auto simp: nth_list_update)
  ultimately show ?thesis by simp
qed

lemma siftup_loop_inv:
  "pos < length heap \<Longrightarrow> siftup_loop lt heap pos = (heap', pos') \<Longrightarrow>
   pos' < length heap' \<and> length heap' = length heap
     \<and> mset (heap'[pos' := x]) = mset (heap[pos := x])"
proof (induction lt heap pos arbitrary: heap' pos' rule: siftup_loop.induct)
  case (1 lt heap pos)
  show ?case
  proof (cases "2 * pos + 1 < length heap")
    case False
    then show ?thesis using "1.prems" by (subst (asm) siftup_loop.simps) (auto simp: Let_def)
  next
    case True
    define c where "c = (if 2 * pos + 1 + 1 < length heap
        \<and> \<not> lt (heap ! (2 * pos + 1)) (heap ! (2 * pos + 1 + 1)) then 2 * pos + 1 + 1 else 2 * pos + 1)"
    have cl: "c < length heap" using True by (simp add: c_def)
    have eq: "siftup_loop lt (heap[pos := heap ! c]) c = (heap', pos')"
      using "1.prems"(2) True
      by (subst (asm) siftup_loop.simps) (auto simp: Let_def c_def split: if_splits)
    have "pos' < length heap' \<and> length heap' = length (heap[pos := heap ! c])
        \<and> mset (heap'[pos' := x]) = mset (heap[pos := heap ! c, c := x])"
      using "1.IH"[OF refl refl True refl c_def _ eq] cl by simp
    then show ?thesis using mset_move[OF "1.prems"(1) cl, of x] by simp
  qed
qed

lemma mset_siftup: "pos < length heap \<Longrightarrow> mset (siftup lt heap pos) = mset heap"
proof -
  assume p: "pos < length heap"
  obtain heap' pos' where eq: "siftup_loop lt heap pos = (heap', pos')" by force
  from siftup_loop_inv[OF p eq, of "heap ! pos"]
  have "pos' < length heap'" "mset (heap'[pos' := heap ! pos]) = mset heap" by simp_all
  then show ?thesis by (simp add: siftup_def eq mset_siftdown)
qed

lemma mset_heappush: "mset (heappush lt heap item) = add_mset item (mset heap)"
  by (simp add: heappush_def mset_siftdown)

lemma mset_heapify_fold:
  "\<forall>i \<in> set is. i < length x \<Longrightarrow> mset (fold (\<lambda>i heap. siftup lt heap i) is x) = mset x"
proof (induction "is" arbitrary: x)
  case Nil
  then show ?case by simp
next
  case (Cons i "is")
  have m: "mset (siftup lt x i) = mset x" using Cons.prems by (simp add: mset_siftup)
  then have "length (siftup lt x i) = length x" by (metis size_mset)
  then have "mset (fold (\<lambda>i heap. siftup lt heap i) is (siftup lt x i)) = mset (siftup lt x i)"
    using Cons.prems by (intro Cons.IH) simp
  then show ?case by (simp add: m)
qed

lemma mset_heapify: "mset (heapify lt x) = mset x"
  unfolding heapify_def by (rule mset_heapify_fold) auto

lemma heappop_mset:
  assumes "heap \<noteq> []"
  shows "\<exists>item heap'. heappop lt heap = Inr (item, heap') \<and> mset heap = add_mset item (mset heap')"
proof (cases "butlast heap = []")
  case True
  then have "heap = [last heap]" using assms by (metis append_butlast_last_id append_Nil)
  then have "mset heap = mset [last heap]" by simp
  then have "mset heap = {#last heap#}" by simp
  then show ?thesis using assms True by (simp add: heappop_def)
next
  case False
  define h where "h = butlast heap"
  have hne: "h \<noteq> []" using False unfolding h_def .
  then have hl: "0 < length h" by simp
  have "heap = h @ [last heap]" using assms by (simp add: h_def)
  then have "mset heap = mset (h @ [last heap])" by simp
  then have mh: "mset heap = add_mset (last heap) (mset h)" by simp
  have "mset (siftup lt (h[0 := last heap]) 0) = mset (h[0 := last heap])"
    using hl by (simp add: mset_siftup)
  also have "\<dots> = add_mset (last heap) (mset h - {#h ! 0#})"
    using hl by (simp add: mset_update)
  finally have "add_mset (h ! 0) (mset (siftup lt (h[0 := last heap]) 0)) = mset heap"
    using hl mh by simp
  then show ?thesis using assms hne unfolding heappop_def Let_def h_def[symmetric] by simp
qed

subsection \<open>Lengths, for the termination of the merge loop\<close>

lemma heappop_length:
  "heappop lt heap = Inr (item, heap') \<Longrightarrow> Suc (length heap') = length heap"
proof -
  assume a: "heappop lt heap = Inr (item, heap')"
  then have ne: "heap \<noteq> []" by (auto simp: heappop_def)
  from heappop_mset[OF ne, of lt] a have "mset heap = add_mset item (mset heap')" by simp
  then have "size (mset heap) = size (add_mset item (mset heap'))" by simp
  then show ?thesis by simp
qed

lemma heappush_length: "length (heappush lt heap item) = Suc (length heap)"
proof -
  have "size (mset (heappush lt heap item)) = size (add_mset item (mset heap))"
    by (simp only: mset_heappush)
  then show ?thesis by simp
qed

section \<open>Huffman coding\<close>

text \<open>
  A \<open>HuffmanNode\<close> object. Symbols are the characters of the text (type \<open>'a\<close>);
  probabilities are floats, whose arithmetic is not modelled: the type \<open>'p\<close>, its
  comparison \<open>lt\<close>, its addition \<open>add\<close> and the true division \<open>true_div\<close> of two
  integers are parameters, so every result holds for whatever the floats do.
\<close>

datatype ('a, 'p) HuffmanNode =
  HuffmanNode (symbol: "'a option") (prob: 'p)
    (left: "('a, 'p) HuffmanNode option") (right: "('a, 'p) HuffmanNode option")

definition node_lt :: "('p \<Rightarrow> 'p \<Rightarrow> bool) \<Rightarrow> ('a, 'p) HuffmanNode \<Rightarrow> ('a, 'p) HuffmanNode \<Rightarrow> bool" where
  "node_lt lt self other = lt (prob self) (prob other)"

text \<open>
  \<open>collections.Counter(text)\<close>: the counts of the characters, in order of first
  occurrence.
\<close>

definition counter :: "'a list \<Rightarrow> ('a \<times> int) list" where
  "counter text =
     fold (\<lambda>ch counts.
             AList.update ch (case map_of counts ch of None \<Rightarrow> 1 | Some c \<Rightarrow> c + 1) counts)
       text []"

definition compute_symbol_probabilities :: "(int \<Rightarrow> int \<Rightarrow> 'p) \<Rightarrow> 'a list \<Rightarrow> ('a \<times> 'p) list" where
  "compute_symbol_probabilities true_div text =
     (if text = [] then []
      else
        let counts = counter text;
            total = sum_list (map snd counts)
        in map (\<lambda>(smb, c). (smb, true_div c total)) counts)"

text \<open>
  The loop \<open>while len(heap) > 1\<close> of \<open>build_huffman_tree\<close> and its
  \<open>return heap[0]\<close>.
\<close>

function merge_loop ::
  "('p \<Rightarrow> 'p \<Rightarrow> bool) \<Rightarrow> ('p \<Rightarrow> 'p \<Rightarrow> 'p) \<Rightarrow> ('a, 'p) HuffmanNode list
     \<Rightarrow> error + ('a, 'p) HuffmanNode" where
  "merge_loop lt add heap =
     (if length heap > 1 then
        (case heappop (node_lt lt) heap of
           Inl e \<Rightarrow> Inl e
         | Inr (n1, heap1) \<Rightarrow>
             (case heappop (node_lt lt) heap1 of
                Inl e \<Rightarrow> Inl e
              | Inr (n2, heap2) \<Rightarrow>
                  merge_loop lt add
                    (heappush (node_lt lt) heap2
                       (HuffmanNode None (add (prob n1) (prob n2)) (Some n1) (Some n2)))))
      else getitem heap 0)"
  by pat_completeness auto
termination
  by (relation "measure (\<lambda>(lt, add, heap). length heap)")
     (auto simp: heappush_length dest!: heappop_length)

declare merge_loop.simps [simp del]

definition build_huffman_tree ::
  "('p \<Rightarrow> 'p \<Rightarrow> bool) \<Rightarrow> ('p \<Rightarrow> 'p \<Rightarrow> 'p) \<Rightarrow> ('a \<times> 'p) list
     \<Rightarrow> error + ('a, 'p) HuffmanNode option" where
  "build_huffman_tree lt add probabilities =
     (let heap = map (\<lambda>(smb, p). HuffmanNode (Some smb) p None None) probabilities in
      if heap = [] then Inr None
      else
        let heap = heapify (node_lt lt) heap in
        if length heap = 1 then
          (let only = heap ! 0
           in Inr (Some (HuffmanNode None (prob only) (Some only) None)))
        else
          (case merge_loop lt add heap of
             Inl e \<Rightarrow> Inl e
           | Inr root \<Rightarrow> Inr (Some root)))"

text \<open>
  \<open>traverse\<close> of \<open>build_huffman_codes\<close>, with the dictionary \<open>codes\<close>
  threaded. A dictionary is an association list in insertion order:
  \<open>AList.update\<close> overwrites in place or appends, as \<open>codes[k] = v\<close> does.
\<close>

fun traverse :: "('a, 'p) HuffmanNode \<Rightarrow> string \<Rightarrow> ('a \<times> string) list \<Rightarrow> ('a \<times> string) list" where
  "traverse (HuffmanNode smb p l r) prefix codes =
     (case smb of
        Some s \<Rightarrow> AList.update s (if prefix \<noteq> [] then prefix else ''0'') codes
      | None \<Rightarrow>
          (let codes1 = (case l of Some ln \<Rightarrow> traverse ln (prefix @ ''0'') codes | None \<Rightarrow> codes)
           in (case r of Some rn \<Rightarrow> traverse rn (prefix @ ''1'') codes1 | None \<Rightarrow> codes1)))"

definition build_huffman_codes :: "('a, 'p) HuffmanNode option \<Rightarrow> ('a \<times> string) list" where
  "build_huffman_codes root = (case root of None \<Rightarrow> [] | Some r \<Rightarrow> traverse r [] [])"

text \<open>\<open>"".join(codes[ch] for ch in text)\<close>: a missing key raises KeyError.\<close>

fun huffman_encode :: "'a list \<Rightarrow> ('a \<times> string) list \<Rightarrow> error + string" where
  "huffman_encode [] codes = Inr []"
| "huffman_encode (ch # text) codes =
     (case map_of codes ch of
        None \<Rightarrow> Inl KeyError
      | Some code \<Rightarrow>
          (case huffman_encode text codes of
             Inl e \<Rightarrow> Inl e
           | Inr rest \<Rightarrow> Inr (code @ rest)))"

text \<open>
  The loop of \<open>huffman_decode\<close> over \<open>bits\<close>, with \<open>node\<close> and
  \<open>result_chars\<close> threaded; a missing child is the \<open>break\<close>.
\<close>

fun huffman_decode_loop ::
  "('a, 'p) HuffmanNode \<Rightarrow> string \<Rightarrow> ('a, 'p) HuffmanNode \<Rightarrow> 'a list \<Rightarrow> 'a list" where
  "huffman_decode_loop root [] node result_chars = result_chars"
| "huffman_decode_loop root (b # bits) node result_chars =
     (case (if b = CHR ''0'' then left node else right node) of
        None \<Rightarrow> result_chars
      | Some node' \<Rightarrow>
          (case symbol node' of
             Some s \<Rightarrow> huffman_decode_loop root bits root (result_chars @ [s])
           | None \<Rightarrow> huffman_decode_loop root bits node' result_chars))"

definition huffman_decode :: "string \<Rightarrow> ('a, 'p) HuffmanNode option \<Rightarrow> 'a list" where
  "huffman_decode bits root =
     (case root of None \<Rightarrow> [] | Some r \<Rightarrow> huffman_decode_loop r bits r [])"

text \<open>The same loop in \<open>huffman_decode_safe\<close>: a missing child returns the flag False.\<close>

fun huffman_decode_safe_loop ::
  "('a, 'p) HuffmanNode \<Rightarrow> string \<Rightarrow> ('a, 'p) HuffmanNode \<Rightarrow> 'a list \<Rightarrow> 'a list \<times> bool" where
  "huffman_decode_safe_loop root [] node result_chars = (result_chars, True)"
| "huffman_decode_safe_loop root (b # bits) node result_chars =
     (case (if b = CHR ''0'' then left node else right node) of
        None \<Rightarrow> (result_chars, False)
      | Some node' \<Rightarrow>
          (case symbol node' of
             Some s \<Rightarrow> huffman_decode_safe_loop root bits root (result_chars @ [s])
           | None \<Rightarrow> huffman_decode_safe_loop root bits node' result_chars))"

definition huffman_decode_safe :: "string \<Rightarrow> ('a, 'p) HuffmanNode option \<Rightarrow> 'a list \<times> bool" where
  "huffman_decode_safe bits root =
     (case root of None \<Rightarrow> ([], True) | Some r \<Rightarrow> huffman_decode_safe_loop r bits r [])"

section \<open>The pipeline\<close>

record ('a, 'p) pipeline_result =
  text_length :: nat
  probabilities :: "('a \<times> 'p) list"
  codes :: "('a \<times> string) list"
  encoded_bits :: string
  decoded_text :: "'a list"
  hamming_bits :: string
  pad_bits :: int
  corrupted_bits :: string
  corrupted_data_bits :: string
  corrupted_decoded_text :: "'a list"
  corrupted_decode_ok :: bool
  recovered_bits :: string
  recovered_decoded_text :: "'a list"
  recovered_text_ok :: bool
  huffman_ok :: bool
  hamming_ok :: bool

definition run_full_pipeline ::
  "('p \<Rightarrow> 'p \<Rightarrow> bool) \<Rightarrow> ('p \<Rightarrow> 'p \<Rightarrow> 'p) \<Rightarrow> (int \<Rightarrow> int \<Rightarrow> 'p) \<Rightarrow> (int \<Rightarrow> nat \<Rightarrow> nat)
     \<Rightarrow> 'a list \<Rightarrow> int \<Rightarrow> error + ('a, 'p) pipeline_result" where
  "run_full_pipeline lt add true_div draw text error_interval =
     (let probs = compute_symbol_probabilities true_div text in
      and_then (build_huffman_tree lt add probs) (\<lambda>root.
      let codes = build_huffman_codes root in
      and_then (if text \<noteq> [] then huffman_encode text codes else Inr []) (\<lambda>encoded_bits.
      let decoded_text = huffman_decode encoded_bits root in
      and_then (hamming_7_4_encode encoded_bits) (\<lambda>(hamming_bits, pad_bits).
      let corrupted_bits = add_errors draw hamming_bits error_interval 2024 in
      and_then (hamming_7_4_decode_no_correction corrupted_bits pad_bits) (\<lambda>corrupted_data_bits.
      let (corrupted_decoded_text, corrupted_decode_ok) =
            huffman_decode_safe corrupted_data_bits root in
      and_then (hamming_7_4_decode corrupted_bits pad_bits) (\<lambda>recovered_bits.
      let recovered_decoded_text = huffman_decode recovered_bits root;
          recovered_text_ok = (recovered_decoded_text = text)
      in Inr \<lparr> text_length = length text,
               probabilities = probs,
               codes = codes,
               encoded_bits = encoded_bits,
               decoded_text = decoded_text,
               hamming_bits = hamming_bits,
               pad_bits = pad_bits,
               corrupted_bits = corrupted_bits,
               corrupted_data_bits = corrupted_data_bits,
               corrupted_decoded_text = corrupted_decoded_text,
               corrupted_decode_ok = corrupted_decode_ok,
               recovered_bits = recovered_bits,
               recovered_decoded_text = recovered_decoded_text,
               recovered_text_ok = recovered_text_ok,
               huffman_ok = (decoded_text = text),
               hamming_ok = (recovered_bits = encoded_bits) \<rparr>))))))"

section \<open>Bit strings and the encoder of the specification\<close>

text \<open>
  The encoder as section 4.4 of the specification words it: the stream is read four bits
  at a time as \<open>(d1, d2, d3, d4)\<close>, and each group gives the block
  \<open>(p1, p2, d1, p4, d2, d3, d4)\<close> with \<open>p1 = d1 \<oplus> d2 \<oplus> d4\<close>, \<open>p2 = d1 \<oplus> d3 \<oplus> d4\<close>,
  \<open>p4 = d2 \<oplus> d3 \<oplus> d4\<close>.
\<close>

fun hamming_blocks_spec :: "int list \<Rightarrow> int list" where
  "hamming_blocks_spec (d1 # d2 # d3 # d4 # rest) =
     [d1 XOR d2 XOR d4, d1 XOR d3 XOR d4, d1, d2 XOR d3 XOR d4, d2, d3, d4] @ hamming_blocks_spec rest"
| "hamming_blocks_spec _ = []"

text \<open>A bit string is a string over the two characters \<open>0\<close> and \<open>1\<close>.\<close>

definition is_bit :: "char \<Rightarrow> bool" where
  "is_bit c = (c = CHR ''0'' \<or> c = CHR ''1'')"

definition is_bitstr :: "string \<Rightarrow> bool" where
  "is_bitstr s = (\<forall>c \<in> set s. is_bit c)"

text \<open>The integers \<open>_bitstr_to_int_list\<close> produces.\<close>

definition bit01 :: "int \<Rightarrow> bool" where
  "bit01 x = (x = 0 \<or> x = 1)"

section \<open>Notions of the claims about Huffman codes\<close>

text \<open>The symbols \<open>traverse\<close> reaches in a tree, in the order it reaches them.\<close>

fun leaves :: "('a, 'p) HuffmanNode \<Rightarrow> 'a list" where
  "leaves (HuffmanNode smb p l r) =
     (case smb of
        Some s \<Rightarrow> [s]
      | None \<Rightarrow>
          (case l of Some ln \<Rightarrow> leaves ln | None \<Rightarrow> []) @
          (case r of Some rn \<Rightarrow> leaves rn | None \<Rightarrow> []))"

text \<open>
  The symbols with the codes \<open>traverse\<close> assigns them, in the order of its
  assignments \<open>codes[node.symbol] = ...\<close>.
\<close>

fun paths :: "('a, 'p) HuffmanNode \<Rightarrow> string \<Rightarrow> ('a \<times> string) list" where
  "paths (HuffmanNode smb p l r) prefix =
     (case smb of
        Some s \<Rightarrow> [(s, if prefix \<noteq> [] then prefix else ''0'')]
      | None \<Rightarrow>
          (case l of Some ln \<Rightarrow> paths ln (prefix @ ''0'') | None \<Rightarrow> []) @
          (case r of Some rn \<Rightarrow> paths rn (prefix @ ''1'') | None \<Rightarrow> []))"

text \<open>\<open>xs\<close> is a prefix of \<open>ys\<close>.\<close>

definition is_prefix :: "'b list \<Rightarrow> 'b list \<Rightarrow> bool" where
  "is_prefix xs ys = (take (length xs) ys = xs)"

text \<open>A sequence of assignments \<open>codes[k] = v\<close>.\<close>

definition updates :: "('k \<times> 'v) list \<Rightarrow> ('k \<times> 'v) list \<Rightarrow> ('k \<times> 'v) list" where
  "updates ps cs = fold (\<lambda>(k, v) m. AList.update k v m) ps cs"

text \<open>No code of the list is a prefix of a code at another position.\<close>

fun prefix_free :: "'b list list \<Rightarrow> bool" where
  "prefix_free [] = True"
| "prefix_free (c # cs) =
     ((\<forall>d \<in> set cs. \<not> is_prefix c d \<and> \<not> is_prefix d c) \<and> prefix_free cs)"

text \<open>The symbols of all trees of a heap.\<close>

definition heap_leaves :: "('a, 'p) HuffmanNode list \<Rightarrow> 'a multiset" where
  "heap_leaves h = (\<Sum>t\<in>#mset h. mset (leaves t))"

section \<open>The Hamming encoder\<close>

lemma is_bit_0: "is_bit (CHR ''0'')" by (simp add: is_bit_def)
lemma is_bit_1: "is_bit (CHR ''1'')" by (simp add: is_bit_def)

lemma python_int_0: "python_int (CHR ''0'') = Inr 0"
  by (simp add: python_int_def)

lemma python_int_1: "python_int (CHR ''1'') = Inr 1"
  by (simp add: python_int_def)

lemma python_int_bit:
  "is_bit c \<Longrightarrow> python_int c = Inr (if c = CHR ''1'' then 1 else 0)"
  unfolding is_bit_def by (elim disjE) (simp_all add: python_int_0 python_int_1)

lemma drop4:
  assumes "i + 3 < length s"
  shows "drop i s = s ! i # s ! (i+1) # s ! (i+2) # s ! (i+3) # drop (i+4) s"
proof -
  have "drop i s = s ! i # s ! Suc i # s ! Suc (Suc i) # s ! Suc (Suc (Suc i)) #
      drop (Suc (Suc (Suc (Suc i)))) s"
    using assms by (simp add: Cons_nth_drop_Suc)
  then show ?thesis by (simp add: eval_nat_numeral)
qed

lemma drop7:
  assumes "i + 6 < length s"
  shows "drop i s = s ! i # s ! (i+1) # s ! (i+2) # s ! (i+3) # s ! (i+4) # s ! (i+5) # s ! (i+6) # drop (i+7) s"
proof -
  have "drop i s = s ! i # s ! Suc i # s ! Suc (Suc i) # s ! Suc (Suc (Suc i)) #
      s ! Suc (Suc (Suc (Suc i))) # s ! Suc (Suc (Suc (Suc (Suc i)))) #
      s ! Suc (Suc (Suc (Suc (Suc (Suc i))))) #
      drop (Suc (Suc (Suc (Suc (Suc (Suc (Suc i))))))) s"
    using assms by (simp add: Cons_nth_drop_Suc)
  then show ?thesis by (simp add: eval_nat_numeral)
qed

lemma encode_loop_bits:
  "is_bitstr s \<Longrightarrow> i \<le> length s \<Longrightarrow> 4 dvd (length s - i) \<Longrightarrow>
   hamming_7_4_encode_loop s i acc = Inr (acc @ hamming_blocks_spec (bitstr_to_int_list (drop i s)))"
proof (induction s i acc rule: hamming_7_4_encode_loop.induct)
  case (1 padded i encoded)
  show ?case
  proof (cases "i < length padded")
    case False
    then show ?thesis
      by (subst hamming_7_4_encode_loop.simps) (simp add: bitstr_to_int_list_def)
  next
    case True
    with "1.prems"(2,3) have len: "i + 3 < length padded" by presburger
    have b: "\<And>k. k < length padded \<Longrightarrow> is_bit (padded ! k)"
      using "1.prems"(1) by (simp add: is_bitstr_def)
    define v where "v = (\<lambda>k. if padded ! k = CHR ''1'' then (1::int) else 0)"
    define cw where "cw = [v i XOR v (i+1) XOR v (i+3), v i XOR v (i+2) XOR v (i+3), v i,
            v (i+1) XOR v (i+2) XOR v (i+3), v (i+1), v (i+2), v (i+3)]"
    have blk: "hamming_7_4_encode_block padded i = Inr cw"
      using len b[of i] b[of "i+1"] b[of "i+2"] b[of "i+3"]
      by (simp add: hamming_7_4_encode_block_def and_then_def getitem_def python_int_bit
            Let_def cw_def v_def)
    have d: "4 dvd (length padded - (i + 4))" using "1.prems"(3) len
      by presburger
    have ih: "hamming_7_4_encode_loop padded (i + 4) (encoded @ cw) =
       Inr ((encoded @ cw) @ hamming_blocks_spec (bitstr_to_int_list (drop (i + 4) padded)))"
      using "1.IH"[OF True blk "1.prems"(1) _ d] len by simp
    have sp: "hamming_blocks_spec (bitstr_to_int_list (drop i padded)) =
        cw @ hamming_blocks_spec (bitstr_to_int_list (drop (i + 4) padded))"
      by (subst drop4[OF len]) (simp add: bitstr_to_int_list_def cw_def v_def)
    show ?thesis
      by (subst hamming_7_4_encode_loop.simps)
         (simp only: True if_True blk sum.case ih sp append_assoc)
  qed
qed

lemma is_bitstr_padded: "is_bitstr s \<Longrightarrow> is_bitstr (s @ replicate n (CHR ''0''))"
  by (auto simp: is_bitstr_def is_bit_0)

lemma pad_len: "4 dvd n + (4 - n mod 4) mod (4::nat)"
proof -
  define r where "r = n mod 4"
  have "r < 4" by (simp add: r_def)
  then have "r = 0 \<or> r = 1 \<or> r = 2 \<or> r = 3" by arith
  then have "(r + (4 - r) mod 4) mod 4 = 0" by auto
  moreover have "(n + (4 - r) mod 4) mod 4 = (r + (4 - r) mod 4) mod 4"
    unfolding r_def by (simp add: mod_add_left_eq)
  ultimately have "(n + (4 - r) mod 4) mod 4 = 0" by simp
  then show ?thesis unfolding r_def by (simp only: dvd_eq_mod_eq_0)
qed

lemma hamming_7_4_encode_eq:
  assumes bs: "is_bitstr b"
  shows "hamming_7_4_encode b =
        Inr (int_list_to_bitstr (hamming_blocks_spec (bitstr_to_int_list
               (b @ replicate ((4 - length b mod 4) mod 4) (CHR ''0'')))),
             int ((4 - length b mod 4) mod 4))"
proof (cases "b = []")
  case True
  then show ?thesis
    by (simp add: hamming_7_4_encode_def bitstr_to_int_list_def int_list_to_bitstr_def)
next
  case False
  define pad where "pad = (4 - length b mod 4) mod 4"
  define padded where "padded = b @ replicate pad (CHR ''0'')"
  have "4 dvd length padded" using pad_len[of "length b"] by (simp add: padded_def pad_def)
  then have "hamming_7_4_encode_loop padded 0 [] =
      Inr ([] @ hamming_blocks_spec (bitstr_to_int_list (drop 0 padded)))"
    using is_bitstr_padded[OF bs, of pad] by (intro encode_loop_bits) (simp_all add: padded_def)
  then show ?thesis
    using False unfolding hamming_7_4_encode_def Let_def pad_def[symmetric] padded_def[symmetric]
    by simp
qed

text \<open>
  C6. On a bit string, \<open>hamming_7_4_encode\<close> pads on the right with
  \<open>pad_bits = (4 - len % 4) % 4\<close> zero bits, turns every group of four bits
  \<open>(d1, d2, d3, d4)\<close> of the padded stream into the block
  \<open>(p1, p2, d1, p4, d2, d3, d4)\<close> of \<open>hamming_blocks_spec\<close>, and returns the blocks
  with \<open>pad_bits\<close>; encoding \<open>1110\<close> gives \<open>0010110\<close> with no padding.
\<close>

theorem hamming_7_4_encode_blocks:
  "(is_bitstr bitstring \<longrightarrow>
      hamming_7_4_encode bitstring =
        Inr (int_list_to_bitstr (hamming_blocks_spec (bitstr_to_int_list
               (bitstring @ replicate ((4 - length bitstring mod 4) mod 4) (CHR ''0'')))),
             int ((4 - length bitstring mod 4) mod 4)))
   \<and> hamming_7_4_encode ''1110'' = Inr (''0010110'', 0)"
proof -
  have ex: "is_bitstr ''1110''" by (simp add: is_bitstr_def is_bit_def)
  have "hamming_7_4_encode ''1110'' = Inr (''0010110'', 0)"
    using hamming_7_4_encode_eq[OF ex] by (simp add: bitstr_to_int_list_def int_list_to_bitstr_def)
  then show ?thesis using hamming_7_4_encode_eq[of bitstring] by blast
qed

theorem hamming_7_4_encode_blocks_witness:
  "is_bitstr ''10110'' \<and> hamming_7_4_encode ''10110'' = Inr (''01100110000000'', 3)"
proof -
  have bs: "is_bitstr ''10110''" by (simp add: is_bitstr_def is_bit_def)
  have r: "replicate 3 (CHR ''0'') = ''000''" by (simp add: numeral_3_eq_3)
  have "hamming_7_4_encode ''10110'' =
      Inr (int_list_to_bitstr (hamming_blocks_spec (bitstr_to_int_list
             (''10110'' @ replicate 3 (CHR ''0'')))), 3)"
    using hamming_7_4_encode_blocks[of "''10110''"] bs by simp
  then have "hamming_7_4_encode ''10110'' = Inr (''01100110000000'', 3)"
    unfolding r by (simp add: bitstr_to_int_list_def int_list_to_bitstr_def)
  with bs show ?thesis by simp
qed

section \<open>The Hamming decoders\<close>

lemma bit01_xor: "bit01 x \<Longrightarrow> bit01 y \<Longrightarrow> bit01 (x XOR y)"
  by (auto simp: bit01_def)

lemma bit01_0: "bit01 0" and bit01_1: "bit01 1"
  by (simp_all add: bit01_def)

lemma bit01_bitstr: "x \<in> set (bitstr_to_int_list s) \<Longrightarrow> bit01 x"
  by (auto simp: bitstr_to_int_list_def bit01_def)

lemma bit01_bound: "bit01 x \<Longrightarrow> 0 \<le> x \<and> x \<le> 1"
  by (auto simp: bit01_def)

lemma decode_block_ok:
  assumes b: "\<forall>x \<in> set bits. bit01 x" and len: "i + 7 \<le> length bits"
  shows "\<exists>bits' quad. hamming_7_4_decode_block bits i = Inr (bits', quad)
           \<and> (\<forall>x \<in> set bits'. bit01 x) \<and> length bits' = length bits"
proof -
  define blk where "blk = take 7 (drop i bits)"
  have l7: "length blk = 7" using len by (simp add: blk_def)
  have nb: "bit01 (blk ! k)" if "k < 7" for k
    using b that l7 by (metis nth_mem in_set_takeD in_set_dropD blk_def)
  define s1 where "s1 = blk ! 0 XOR blk ! 2 XOR blk ! 4 XOR blk ! 6"
  define s2 where "s2 = blk ! 1 XOR blk ! 2 XOR blk ! 5 XOR blk ! 6"
  define s4 where "s4 = blk ! 3 XOR blk ! 4 XOR blk ! 5 XOR blk ! 6"
  define ep where "ep = s1 + push_bit 1 s2 + push_bit 2 s4"
  have "bit01 s1" "bit01 s2" "bit01 s4"
    unfolding s1_def s2_def s4_def by (intro bit01_xor nb; simp)+
  then have eb: "0 \<le> ep \<and> ep \<le> 7"
    using bit01_bound[of s1] bit01_bound[of s2] bit01_bound[of s4]
    by (simp add: ep_def push_bit_eq_mult)
  show ?thesis
  proof (cases "ep = 0")
    case True
    then show ?thesis
      using b l7 unfolding hamming_7_4_decode_block_def Let_def
        blk_def[symmetric] s1_def[symmetric] s2_def[symmetric] s4_def[symmetric] ep_def[symmetric]
      by simp
  next
    case False
    define idx where "idx = nat (int i + ep - 1)"
    have li: "list_index (length bits) (int i + ep - 1) = Inr idx"
      using eb False len by (simp add: list_index_def Let_def idx_def)
    have il: "idx < length bits" using eb False len unfolding idx_def by arith
    define bits' where "bits' = bits[idx := bits ! idx XOR 1]"
    have b': "\<forall>x \<in> set bits'. bit01 x"
    proof
      fix x assume "x \<in> set bits'"
      then have "x \<in> insert (bits ! idx XOR 1) (set bits)"
        unfolding bits'_def using set_update_subset_insert by fast
      then show "bit01 x" using b il bit01_xor[OF _ bit01_1, of "bits ! idx"] by auto
    qed
    have l7': "length (take 7 (drop i bits')) = 7" using len by (simp add: bits'_def)
    have ll: "length bits' = length bits" by (simp add: bits'_def)
    show ?thesis
      using False li b' l7 l7' ll unfolding hamming_7_4_decode_block_def Let_def
        blk_def[symmetric] s1_def[symmetric] s2_def[symmetric] s4_def[symmetric] ep_def[symmetric]
      by (simp add: bits'_def[symmetric])
  qed
qed

lemma decode_loop_ok:
  "\<forall>x \<in> set bits. bit01 x \<Longrightarrow> i \<le> length bits \<Longrightarrow> 7 dvd (length bits - i) \<Longrightarrow>
   \<exists>d. hamming_7_4_decode_loop bits i data = Inr d"
proof (induction bits i data rule: hamming_7_4_decode_loop.induct)
  case (1 bits i data_bits)
  show ?case
  proof (cases "i < length bits")
    case False
    then show ?thesis by (subst hamming_7_4_decode_loop.simps) simp
  next
    case True
    then have len: "i + 7 \<le> length bits"
      using dvd_imp_le[OF "1.prems"(3)] by simp
    from decode_block_ok[OF "1.prems"(1) len] obtain bits' quad where
      blk: "hamming_7_4_decode_block bits i = Inr (bits', quad)"
      and b': "\<forall>x \<in> set bits'. bit01 x" and l': "length bits' = length bits" by blast
    have "7 dvd (length bits - i) - 7"
      using dvd_diff_nat[OF "1.prems"(3) dvd_refl] .
    then have d: "7 dvd (length bits' - (i + 7))" by (simp add: l')
    have "\<exists>d. hamming_7_4_decode_loop bits' (i + 7) (data_bits @ quad) = Inr d"
      using "1.IH"[OF True blk refl b' _ d] len l' by simp
    then show ?thesis
      by (subst hamming_7_4_decode_loop.simps) (simp add: True blk)
  qed
qed

lemma decode_block_codeword:
  assumes "bit01 d1" "bit01 d2" "bit01 d3" "bit01 d4"
  shows "hamming_7_4_decode_block
           (pre @ [d1 XOR d2 XOR d4, d1 XOR d3 XOR d4, d1, d2 XOR d3 XOR d4, d2, d3, d4] @ post)
           (length pre) =
         Inr (pre @ [d1 XOR d2 XOR d4, d1 XOR d3 XOR d4, d1, d2 XOR d3 XOR d4, d2, d3, d4] @ post,
              [d1, d2, d3, d4])"
  using assms unfolding bit01_def
  by (elim disjE) (simp_all add: hamming_7_4_decode_block_def)

lemma decode_loop_codewords:
  "\<forall>x \<in> set ds. bit01 x \<Longrightarrow> 4 dvd length ds \<Longrightarrow>
   hamming_7_4_decode_loop (pre @ hamming_blocks_spec ds) (length pre) data = Inr (data @ ds)"
proof (induction ds arbitrary: pre data rule: hamming_blocks_spec.induct)
  case (1 d1 d2 d3 d4 rest)
  define cw where "cw = [d1 XOR d2 XOR d4, d1 XOR d3 XOR d4, d1, d2 XOR d3 XOR d4, d2, d3, d4]"
  have l: "length cw = 7" by (simp add: cw_def)
  have blk: "hamming_7_4_decode_block (pre @ cw @ hamming_blocks_spec rest) (length pre) =
      Inr (pre @ cw @ hamming_blocks_spec rest, [d1, d2, d3, d4])"
    unfolding cw_def using "1.prems"(1) by (intro decode_block_codeword) simp_all
  have "4 dvd length rest + 4" using "1.prems"(2) by (simp add: eval_nat_numeral)
  then have "4 dvd length rest" by simp
  then have ih: "hamming_7_4_decode_loop ((pre @ cw) @ hamming_blocks_spec rest) (length (pre @ cw))
      (data @ [d1, d2, d3, d4]) = Inr ((data @ [d1, d2, d3, d4]) @ rest)"
    using "1.prems"(1) by (intro "1.IH") simp_all
  have sp: "hamming_blocks_spec (d1 # d2 # d3 # d4 # rest) = cw @ hamming_blocks_spec rest"
    by (simp add: cw_def)
  show ?case
    unfolding sp
    by (subst hamming_7_4_decode_loop.simps) (use ih l blk in simp)
qed (simp_all add: hamming_7_4_decode_loop.simps numeral_2_eq_2[symmetric] numeral_3_eq_3[symmetric])

lemma extract_loop_ok:
  "i \<le> length bits \<Longrightarrow> 7 dvd (length bits - i) \<Longrightarrow>
   \<exists>d. hamming_7_4_extract_loop bits i data = Inr d"
proof (induction bits i data rule: hamming_7_4_extract_loop.induct)
  case (1 bits i data_bits)
  show ?case
  proof (cases "i < length bits")
    case False
    then show ?thesis by (subst hamming_7_4_extract_loop.simps) simp
  next
    case True
    then have len: "i + 7 \<le> length bits"
      using dvd_imp_le[OF "1.prems"(2)] by simp
    define quad where "quad = [take 7 (drop i bits) ! 2, take 7 (drop i bits) ! 4,
        take 7 (drop i bits) ! 5, take 7 (drop i bits) ! 6]"
    have blk: "hamming_7_4_extract_block bits i = Inr quad"
      using len by (simp add: hamming_7_4_extract_block_def Let_def quad_def)
    have "7 dvd (length bits - i) - 7"
      using dvd_diff_nat[OF "1.prems"(2) dvd_refl] .
    then have d: "7 dvd (length bits - (i + 7))" by simp
    have "\<exists>d. hamming_7_4_extract_loop bits (i + 7) (data_bits @ quad) = Inr d"
      using "1.IH"[OF True blk _ d] len by simp
    then show ?thesis
      by (subst hamming_7_4_extract_loop.simps) (simp add: True blk)
  qed
qed

text \<open>
  C8. \<open>hamming_7_4_decode\<close> and \<open>hamming_7_4_decode_no_correction\<close> raise (the result
  is an exception, never a string) if and only if the length of the encoded bits is not
  a multiple of 7; on every input whose length is a multiple of 7 they return a string,
  and on the empty string the empty string.
\<close>

theorem hamming_decode_structural_fault:
  "((\<exists>e. hamming_7_4_decode enc pad = Inl e) \<longleftrightarrow>
       length enc mod 7 \<noteq> 0)
   \<and> ((\<exists>e. hamming_7_4_decode_no_correction enc pad = Inl e) \<longleftrightarrow>
       length enc mod 7 \<noteq> 0)
   \<and> (length enc mod 7 = 0 \<longrightarrow>
        (\<exists>s. hamming_7_4_decode enc pad = Inr s)
      \<and> (\<exists>s. hamming_7_4_decode_no_correction enc pad = Inr s))
   \<and> hamming_7_4_decode [] pad = Inr []
   \<and> hamming_7_4_decode_no_correction [] pad = Inr []"
proof -
  have a: "\<exists>s. hamming_7_4_decode enc pad = Inr s"
    if m: "length enc mod 7 = 0"
  proof -
    have "\<exists>d. hamming_7_4_decode_loop (bitstr_to_int_list enc) 0 [] = Inr d"
      using m by (intro decode_loop_ok) (auto simp: bit01_bitstr bitstr_to_int_list_def)
    then show ?thesis using m by (auto simp: hamming_7_4_decode_def)
  qed
  have b: "\<exists>s. hamming_7_4_decode_no_correction enc pad = Inr s"
    if m: "length enc mod 7 = 0"
  proof -
    have "\<exists>d. hamming_7_4_extract_loop (bitstr_to_int_list enc) 0 [] = Inr d"
      using m by (intro extract_loop_ok) (auto simp: bitstr_to_int_list_def)
    then show ?thesis using m by (auto simp: hamming_7_4_decode_no_correction_def)
  qed
  have c: "hamming_7_4_decode enc pad = Inl ValueError"
    "hamming_7_4_decode_no_correction enc pad = Inl ValueError"
    if "length enc mod 7 \<noteq> 0"
    using that by (auto simp: hamming_7_4_decode_def hamming_7_4_decode_no_correction_def)
  have d: "hamming_7_4_decode [] pad = Inr []"
    "hamming_7_4_decode_no_correction [] pad = Inr []"
    by (simp_all add: hamming_7_4_decode_def hamming_7_4_decode_no_correction_def)
  show ?thesis using a b c d by (cases "length enc mod 7 = 0") auto
qed

theorem hamming_decode_structural_fault_witness:
  "length ''0010110'' mod 7 = 0
   \<and> (\<exists>s. hamming_7_4_decode ''0010110'' 0 = Inr s)
   \<and> (\<exists>s. hamming_7_4_decode_no_correction ''0010110'' 0 = Inr s)"
  using hamming_decode_structural_fault[of "''0010110''" 0] by simp

lemma bit01_blocks: "\<forall>x \<in> set ds. bit01 x \<Longrightarrow> \<forall>x \<in> set (hamming_blocks_spec ds). bit01 x"
  by (induction ds rule: hamming_blocks_spec.induct) (simp_all add: bit01_xor)

lemma length_blocks: "4 dvd length ds \<Longrightarrow> length (hamming_blocks_spec ds) = 7 * (length ds div 4)"
proof (induction ds rule: hamming_blocks_spec.induct)
  case (1 d1 d2 d3 d4 rest)
  have len: "length (d1 # d2 # d3 # d4 # rest) = length rest + 4" by simp
  with "1.prems" have "4 dvd length rest + 4" by (simp only:)
  then have "4 dvd length rest" by simp
  then have ih: "length (hamming_blocks_spec rest) = 7 * (length rest div 4)" by (rule "1.IH")
  have dv: "(length rest + 4) div 4 = length rest div 4 + 1" by simp
  have "length (hamming_blocks_spec (d1 # d2 # d3 # d4 # rest)) =
      length (hamming_blocks_spec rest) + 7" by simp
  then show ?case unfolding len dv ih by simp
qed (simp_all add: numeral_2_eq_2[symmetric] numeral_3_eq_3[symmetric])

lemma int_bitstr_inverse:
  "\<forall>x \<in> set xs. bit01 x \<Longrightarrow> bitstr_to_int_list (int_list_to_bitstr xs) = xs"
  by (induction xs) (auto simp: bitstr_to_int_list_def int_list_to_bitstr_def bit01_def)

lemma bit_int_inverse:
  "is_bit c \<Longrightarrow> (if (if c = CHR ''1'' then (1::int) else 0) \<noteq> 0 then CHR ''1'' else CHR ''0'') = c"
  unfolding is_bit_def by (elim disjE) simp_all

lemma bitstr_int_inverse:
  "is_bitstr s \<Longrightarrow> int_list_to_bitstr (bitstr_to_int_list s) = s"
  unfolding bitstr_to_int_list_def int_list_to_bitstr_def is_bitstr_def map_map comp_def
  by (rule map_idI) (simp add: bit_int_inverse)

lemma bitstr_to_int_list_padded:
  "bitstr_to_int_list (b @ replicate n (CHR ''0'')) = bitstr_to_int_list b @ replicate n 0"
  by (simp add: bitstr_to_int_list_def)

text \<open>
  C2. For every bit string \<open>B\<close> (the empty one included), \<open>hamming_7_4_encode B\<close>
  returns some \<open>(encoded, pad_bits)\<close>, and \<open>hamming_7_4_decode\<close> of that pair is
  \<open>B\<close> again.
\<close>

theorem hamming_round_trip:
  assumes bs: "is_bitstr B"
  shows "\<exists>enc pad. hamming_7_4_encode B = Inr (enc, pad)
           \<and> hamming_7_4_decode enc pad = Inr B"
proof -
  define pad where "pad = (4 - length B mod 4) mod 4"
  define ds where "ds = bitstr_to_int_list (B @ replicate pad (CHR ''0''))"
  define enc where "enc = int_list_to_bitstr (hamming_blocks_spec ds)"
  have e: "hamming_7_4_encode B = Inr (enc, int pad)"
    using hamming_7_4_encode_eq[OF bs] by (simp add: enc_def ds_def pad_def)
  have b01: "\<forall>x \<in> set ds. bit01 x" using bit01_bitstr by (auto simp: ds_def)
  have d4: "4 dvd length ds"
    using pad_len[of "length B"] by (simp add: ds_def pad_def bitstr_to_int_list_def)
  have ints: "bitstr_to_int_list enc = hamming_blocks_spec ds"
    unfolding enc_def by (rule int_bitstr_inverse) (rule bit01_blocks[OF b01])
  have loop: "hamming_7_4_decode_loop (bitstr_to_int_list enc) 0 [] = Inr ds"
    using decode_loop_codewords[OF b01 d4, of "[]" "[]"] by (simp add: ints)
  have len: "length enc = 7 * (length ds div 4)"
    by (simp add: enc_def int_list_to_bitstr_def length_blocks[OF d4])
  have dsB: "ds = bitstr_to_int_list B @ replicate pad 0"
    by (simp add: ds_def bitstr_to_int_list_padded)
  have strip: "strip_pad ds (int pad) = bitstr_to_int_list B"
    by (simp add: strip_pad_def dsB bitstr_to_int_list_def)
  show ?thesis
  proof (cases "enc = []")
    case True
    then have "length ds div 4 = 0" using len by simp
    then have "length ds = 0" using d4 by (auto elim: dvdE)
    then have "B = []" by (simp add: dsB bitstr_to_int_list_def)
    then show ?thesis using e True by (simp add: hamming_7_4_decode_def)
  next
    case False
    then have "hamming_7_4_decode enc (int pad) = Inr B"
      by (simp add: hamming_7_4_decode_def len loop strip bitstr_int_inverse[OF bs])
    with e show ?thesis by blast
  qed
qed

theorem hamming_round_trip_witness:
  "is_bitstr ''10110''
   \<and> (\<exists>enc pad. hamming_7_4_encode ''10110'' = Inr (enc, pad)
         \<and> hamming_7_4_decode enc pad = Inr ''10110'')"
  using hamming_round_trip[of "''10110''"] by (simp add: is_bitstr_def is_bit_def)

section \<open>Single-error correction\<close>

lemma lt7_cases: "k < (7::nat) \<Longrightarrow> k = 0 \<or> k = 1 \<or> k = 2 \<or> k = 3 \<or> k = 4 \<or> k = 5 \<or> k = 6"
  by arith

lemma decode_block_single_error:
  assumes "bit01 d1" "bit01 d2" "bit01 d3" "bit01 d4" "k < 7"
  shows "hamming_7_4_decode_block
           ([d1 XOR d2 XOR d4, d1 XOR d3 XOR d4, d1, d2 XOR d3 XOR d4, d2, d3, d4]
              [k := [d1 XOR d2 XOR d4, d1 XOR d3 XOR d4, d1, d2 XOR d3 XOR d4, d2, d3, d4] ! k XOR 1]) 0 =
         Inr ([d1 XOR d2 XOR d4, d1 XOR d3 XOR d4, d1, d2 XOR d3 XOR d4, d2, d3, d4],
              [d1, d2, d3, d4])"
  using assms(1-4) lt7_cases[OF assms(5)] unfolding bit01_def
  by (elim disjE) (simp_all add: hamming_7_4_decode_block_def list_index_def)

lemma bitval_flip_char:
  "(if flip_char c = CHR ''1'' then (1::int) else 0) = (if c = CHR ''1'' then 1 else 0) XOR 1"
  by (simp add: flip_char_def)

lemma bitstr_to_int_list_flip:
  "k < length s \<Longrightarrow>
   bitstr_to_int_list (s[k := flip_char (s ! k)]) =
     (bitstr_to_int_list s)[k := bitstr_to_int_list s ! k XOR 1]"
  unfolding bitstr_to_int_list_def by (simp add: map_update bitval_flip_char)

lemma length4_cases: "length xs = 4 \<Longrightarrow> \<exists>a b c d. xs = [a, b, c, d]"
  by (cases xs; cases "tl xs"; cases "tl (tl xs)"; cases "tl (tl (tl xs))") auto

text \<open>
  C5. For every group of four data bits \<open>d\<close>, the encoder gives one 7-bit codeword,
  and when exactly one of its seven positions is flipped, \<open>hamming_7_4_decode\<close> of
  that block returns \<open>d\<close>.
\<close>

theorem single_error_corrected:
  assumes bs: "is_bitstr d" and l4: "length d = 4" and k: "k < 7"
  shows "\<exists>cw. hamming_7_4_encode d = Inr (cw, 0) \<and> length cw = 7
           \<and> hamming_7_4_decode (cw[k := flip_char (cw ! k)]) 0 = Inr d"
proof -
  define ds where "ds = bitstr_to_int_list d"
  have "length ds = 4" by (simp add: ds_def bitstr_to_int_list_def l4)
  then obtain d1 d2 d3 d4 where ds: "ds = [d1, d2, d3, d4]" using length4_cases by blast
  have b01: "\<forall>x \<in> set ds. bit01 x" using bit01_bitstr by (auto simp: ds_def)
  then have b: "bit01 d1" "bit01 d2" "bit01 d3" "bit01 d4" by (simp_all add: ds)
  define cw where "cw = [d1 XOR d2 XOR d4, d1 XOR d3 XOR d4, d1, d2 XOR d3 XOR d4, d2, d3, d4]"
  define enc where "enc = int_list_to_bitstr cw"
  have cwb: "\<forall>x \<in> set cw. bit01 x" using bit01_blocks[OF b01] by (simp add: ds cw_def)
  have e: "hamming_7_4_encode d = Inr (enc, 0)"
    using hamming_7_4_encode_eq[OF bs] by (simp add: l4 ds_def[symmetric] ds enc_def cw_def)
  have le: "length enc = 7" by (simp add: enc_def cw_def int_list_to_bitstr_def)
  have ints: "bitstr_to_int_list enc = cw"
    unfolding enc_def by (rule int_bitstr_inverse[OF cwb])
  have ints': "bitstr_to_int_list (enc[k := flip_char (enc ! k)]) = cw[k := cw ! k XOR 1]"
    using bitstr_to_int_list_flip[of k enc] k le by (simp add: ints)
  have blk: "hamming_7_4_decode_block (cw[k := cw ! k XOR 1]) 0 = Inr (cw, ds)"
    unfolding cw_def ds by (rule decode_block_single_error[OF b k])
  have loop: "hamming_7_4_decode_loop (cw[k := cw ! k XOR 1]) 0 [] = Inr ds"
    by (subst hamming_7_4_decode_loop.simps, simp add: blk, subst hamming_7_4_decode_loop.simps)
       (simp add: cw_def)
  have "hamming_7_4_decode (enc[k := flip_char (enc ! k)]) 0 = Inr d"
    using le by (auto simp: hamming_7_4_decode_def ints' loop strip_pad_def ds_def
        bitstr_int_inverse[OF bs])
  with e le show ?thesis by blast
qed

theorem single_error_corrected_witness:
  "is_bitstr ''1110'' \<and> length ''1110'' = 4 \<and> (4::nat) < 7
   \<and> hamming_7_4_decode ''0010010'' 0 = Inr ''1110''"
proof -
  have bs: "is_bitstr ''1110''" by (simp add: is_bitstr_def is_bit_def)
  have e: "hamming_7_4_encode ''1110'' = Inr (''0010110'', 0)"
    using hamming_7_4_encode_eq[OF bs] by (simp add: bitstr_to_int_list_def int_list_to_bitstr_def)
  obtain cw where "hamming_7_4_encode ''1110'' = Inr (cw, 0)"
    and d: "hamming_7_4_decode (cw[4 := flip_char (cw ! 4)]) 0 = Inr ''1110''"
    using single_error_corrected[OF bs, of 4] by auto
  with e have "cw = ''0010110''" by simp
  with d have "hamming_7_4_decode ''0010010'' 0 = Inr ''1110''" by (simp add: flip_char_def)
  with bs show ?thesis by simp
qed

section \<open>Code tables\<close>

lemma updates_append: "updates (ps @ qs) cs = updates qs (updates ps cs)"
  by (simp add: updates_def)

lemma traverse_paths: "traverse t pre cs = updates (paths t pre) cs"
proof (induction t pre cs rule: traverse.induct)
  case (1 smb p l r pre cs)
  show ?case
  proof (cases smb)
    case (Some s)
    then show ?thesis by (simp add: updates_def)
  next
    case None
    define c1 where "c1 = (case l of Some ln \<Rightarrow> traverse ln (pre @ ''0'') cs | None \<Rightarrow> cs)"
    have l: "c1 = updates (case l of Some ln \<Rightarrow> paths ln (pre @ ''0'') | None \<Rightarrow> []) cs"
      using "1.IH"(1)[OF None] by (cases l) (simp_all add: c1_def updates_def)
    have r: "(case r of Some rn \<Rightarrow> traverse rn (pre @ ''1'') c1 | None \<Rightarrow> c1) =
        updates (case r of Some rn \<Rightarrow> paths rn (pre @ ''1'') | None \<Rightarrow> []) c1"
      using "1.IH"(2)[OF None c1_def] by (cases r) (simp_all add: updates_def)
    let ?L = "case l of Some ln \<Rightarrow> paths ln (pre @ ''0'') | None \<Rightarrow> []"
    let ?R = "case r of Some rn \<Rightarrow> paths rn (pre @ ''1'') | None \<Rightarrow> []"
    have "traverse (HuffmanNode smb p l r) pre cs =
        (case r of Some rn \<Rightarrow> traverse rn (pre @ ''1'') c1 | None \<Rightarrow> c1)"
      using None unfolding c1_def by (simp add: Let_def)
    also have "\<dots> = updates ?R c1" by (rule r)
    also have "\<dots> = updates ?R (updates ?L cs)" by (simp only: l)
    also have "\<dots> = updates (?L @ ?R) cs" by (simp add: updates_append)
    also have "?L @ ?R = paths (HuffmanNode smb p l r) pre" using None by simp
    finally show ?thesis .
  qed
qed

lemma paths_leaves: "map fst (paths t pre) = leaves t"
  by (induction t pre rule: paths.induct) (auto split: option.splits)

lemma updates_fresh:
  "distinct (map fst ps) \<Longrightarrow> fst ` set ps \<inter> fst ` set cs = {} \<Longrightarrow> updates ps cs = cs @ ps"
proof (induction ps arbitrary: cs)
  case Nil
  then show ?case by (simp add: updates_def)
next
  case (Cons kv ps)
  obtain k v where kv: "kv = (k, v)" by (cases kv)
  have "k \<notin> fst ` set cs" using Cons.prems(2) kv by auto
  then have u: "AList.update k v cs = cs @ [(k, v)]"
    by (induction cs) auto
  have "updates ps (cs @ [(k, v)]) = (cs @ [(k, v)]) @ ps"
    using Cons.prems kv by (intro Cons.IH) auto
  then show ?case by (simp add: updates_def kv u)
qed

lemma prefix_free_append:
  "prefix_free (xs @ ys) =
     (prefix_free xs \<and> prefix_free ys
      \<and> (\<forall>x \<in> set xs. \<forall>y \<in> set ys. \<not> is_prefix x y \<and> \<not> is_prefix y x))"
  by (induction xs) auto

lemma is_prefix_append_same: "is_prefix (pre @ a) (pre @ b) = is_prefix a b"
  by (simp add: is_prefix_def)

lemma paths_extend: "(s, c) \<in> set (paths t pre) \<Longrightarrow> \<exists>x. c = pre @ x"
proof (induction t pre arbitrary: c rule: paths.induct)
  case (1 smb p l r pre)
  show ?case
  proof (cases smb)
    case (Some s')
    then show ?thesis using "1.prems" by (cases "pre = []") auto
  next
    case None
    from "1.prems" None consider
      (L) ln where "l = Some ln" "(s, c) \<in> set (paths ln (pre @ ''0''))"
      | (R) rn where "r = Some rn" "(s, c) \<in> set (paths rn (pre @ ''1''))"
      by (auto split: option.splits)
    then show ?thesis
    proof cases
      case L
      from "1.IH"(1)[OF None L] obtain x where "c = (pre @ ''0'') @ x" by blast
      then show ?thesis by simp
    next
      case R
      from "1.IH"(2)[OF None R] obtain x where "c = (pre @ ''1'') @ x" by blast
      then show ?thesis by simp
    qed
  qed
qed

lemma paths_nonempty: "(s, c) \<in> set (paths t pre) \<Longrightarrow> c \<noteq> []"
proof (induction t pre arbitrary: c rule: paths.induct)
  case (1 smb p l r pre)
  show ?case
  proof (cases smb)
    case (Some s')
    then show ?thesis using "1.prems" by (cases "pre = []") auto
  next
    case None
    from "1.prems" None consider
      (L) ln where "l = Some ln" "(s, c) \<in> set (paths ln (pre @ ''0''))"
      | (R) rn where "r = Some rn" "(s, c) \<in> set (paths rn (pre @ ''1''))"
      by (auto split: option.splits)
    then show ?thesis
    proof cases
      case L
      from paths_extend[OF L(2)] show ?thesis by auto
    next
      case R
      from paths_extend[OF R(2)] show ?thesis by auto
    qed
  qed
qed

lemma bit_chars_differ:
  "\<not> is_prefix (CHR ''0'' # x) (CHR ''1'' # y)" "\<not> is_prefix (CHR ''1'' # x) (CHR ''0'' # y)"
  by (simp_all add: is_prefix_def)

lemma paths_prefix_free: "prefix_free (map snd (paths t pre))"
proof (induction t pre rule: paths.induct)
  case (1 smb p l r pre)
  show ?case
  proof (cases smb)
    case (Some s')
    then show ?thesis by simp
  next
    case None
    define L where "L = (case l of Some ln \<Rightarrow> paths ln (pre @ ''0'') | None \<Rightarrow> [])"
    define R where "R = (case r of Some rn \<Rightarrow> paths rn (pre @ ''1'') | None \<Rightarrow> [])"
    have pl: "prefix_free (map snd L)"
      using "1.IH"(1)[OF None] by (cases l) (simp_all add: L_def)
    have pr: "prefix_free (map snd R)"
      using "1.IH"(2)[OF None] by (cases r) (simp_all add: R_def)
    have el: "\<exists>x. c = pre @ CHR ''0'' # x" if "c \<in> set (map snd L)" for c
    proof -
      from that obtain s ln where "l = Some ln" "(s, c) \<in> set (paths ln (pre @ ''0''))"
        by (cases l) (auto simp: L_def)
      from paths_extend[OF this(2)] show ?thesis by auto
    qed
    have er: "\<exists>x. c = pre @ CHR ''1'' # x" if "c \<in> set (map snd R)" for c
    proof -
      from that obtain s rn where "r = Some rn" "(s, c) \<in> set (paths rn (pre @ ''1''))"
        by (cases r) (auto simp: R_def)
      from paths_extend[OF this(2)] show ?thesis by auto
    qed
    have cross: "\<not> is_prefix x y \<and> \<not> is_prefix y x"
      if "x \<in> set (map snd L)" "y \<in> set (map snd R)" for x y
    proof -
      from el[OF that(1)] obtain a where a: "x = pre @ CHR ''0'' # a" by blast
      from er[OF that(2)] obtain b where b: "y = pre @ CHR ''1'' # b" by blast
      show ?thesis unfolding a b is_prefix_append_same using bit_chars_differ by blast
    qed
    have "paths (HuffmanNode smb p l r) pre = L @ R" using None by (simp add: L_def R_def)
    then show ?thesis using pl pr cross by (simp add: prefix_free_append)
  qed
qed

section \<open>Decoding along a code\<close>

lemma decode_path:
  "symbol node = None \<Longrightarrow> (s, c) \<in> set (paths node pre) \<Longrightarrow>
   \<exists>path. c = pre @ path \<and>
     (\<forall>rest res. huffman_decode_loop root (path @ rest) node res =
        huffman_decode_loop root rest root (res @ [s]))"
proof (induction node pre arbitrary: c rule: paths.induct)
  case (1 smb p l r pre)
  have None: "smb = None" using "1.prems"(1) by simp
  from "1.prems"(2) None consider
    (L) ln where "l = Some ln" "(s, c) \<in> set (paths ln (pre @ ''0''))"
    | (R) rn where "r = Some rn" "(s, c) \<in> set (paths rn (pre @ ''1''))"
    by (auto split: option.splits)
  then show ?case
  proof cases
    case L
    show ?thesis
    proof (cases "symbol ln")
      case (Some s')
      then obtain p' l' r' where ln: "ln = HuffmanNode (Some s') p' l' r'" by (cases ln) auto
      with L(2) have "s = s'" "c = pre @ ''0''" by simp_all
      then show ?thesis using L(1) ln by (intro exI[of _ "''0''"]) simp
    next
      case sn: None
      from "1.IH"(1)[OF None L(1) sn L(2)] obtain path where
        c: "c = (pre @ ''0'') @ path"
        and d: "\<And>rest res. huffman_decode_loop root (path @ rest) ln res =
            huffman_decode_loop root rest root (res @ [s])" by blast
      show ?thesis using c d L(1) sn by (intro exI[of _ "CHR ''0'' # path"]) simp
    qed
  next
    case R
    show ?thesis
    proof (cases "symbol rn")
      case (Some s')
      then obtain p' l' r' where rn: "rn = HuffmanNode (Some s') p' l' r'" by (cases rn) auto
      with R(2) have "s = s'" "c = pre @ ''1''" by simp_all
      then show ?thesis using R(1) rn by (intro exI[of _ "''1''"]) simp
    next
      case sn: None
      from "1.IH"(2)[OF None R(1) sn R(2)] obtain path where
        c: "c = (pre @ ''1'') @ path"
        and d: "\<And>rest res. huffman_decode_loop root (path @ rest) rn res =
            huffman_decode_loop root rest root (res @ [s])" by blast
      show ?thesis using c d R(1) sn by (intro exI[of _ "CHR ''1'' # path"]) simp
    qed
  qed
qed

lemma decode_code:
  assumes "symbol root = None" "(s, c) \<in> set (paths root [])"
  shows "huffman_decode_loop root (c @ rest) root res = huffman_decode_loop root rest root (res @ [s])"
  using decode_path[OF assms, of root] by auto

lemma encode_decode_loop:
  assumes r: "symbol root = None"
    and m: "\<And>ch c. map_of tbl ch = Some c \<Longrightarrow> (ch, c) \<in> set (paths root [])"
  shows "huffman_encode tx tbl = Inr enc \<Longrightarrow>
    huffman_decode_loop root (enc @ rest) root res = huffman_decode_loop root rest root (res @ tx)"
proof (induction tx arbitrary: enc res)
  case Nil
  then show ?case by simp
next
  case (Cons ch tx)
  from Cons.prems obtain c e where c: "map_of tbl ch = Some c"
    and e: "huffman_encode tx tbl = Inr e" and enc: "enc = c @ e"
    by (auto split: option.splits sum.splits)
  have "huffman_decode_loop root ((c @ e) @ rest) root res =
      huffman_decode_loop root (e @ rest) root (res @ [ch])"
    using decode_code[OF r m[OF c], of "e @ rest" res] by simp
  also have "\<dots> = huffman_decode_loop root rest root ((res @ [ch]) @ tx)"
    by (rule Cons.IH[OF e])
  finally show ?case by (simp add: enc)
qed

lemma encode_total:
  "\<forall>ch \<in> set tx. map_of tbl ch \<noteq> None \<Longrightarrow> \<exists>enc. huffman_encode tx tbl = Inr enc"
  by (induction tx) auto

section \<open>The tree builder\<close>

lemma heap_leaves_cong: "mset h = mset h' \<Longrightarrow> heap_leaves h = heap_leaves h'"
  by (simp add: heap_leaves_def)

lemma mset_single_list: "mset xs = {#x#} \<Longrightarrow> xs = [x]"
  by (cases xs) auto

lemma merge_loop_ok:
  "2 \<le> length heap \<Longrightarrow>
   \<exists>root. merge_loop lt add heap = Inr root \<and> symbol root = None
      \<and> mset (leaves root) = heap_leaves heap"
proof (induction lt add heap rule: merge_loop.induct)
  case (1 lt add heap)
  have gt: "1 < length heap" using "1.prems" by simp
  then have "heap \<noteq> []" by auto
  from heappop_mset[OF this, of "node_lt lt"] obtain n1 h1 where
    p1: "heappop (node_lt lt) heap = Inr (n1, h1)" and m1: "mset heap = add_mset n1 (mset h1)"
    by blast
  have l1: "Suc (length h1) = length heap" using heappop_length[OF p1] .
  then have "h1 \<noteq> []" using gt by auto
  from heappop_mset[OF this, of "node_lt lt"] obtain n2 h2 where
    p2: "heappop (node_lt lt) h1 = Inr (n2, h2)" and m2: "mset h1 = add_mset n2 (mset h2)"
    by blast
  have l2: "Suc (length h2) = length h1" using heappop_length[OF p2] .
  define parent where "parent = HuffmanNode None (add (prob n1) (prob n2)) (Some n1) (Some n2)"
  define new where "new = heappush (node_lt lt) h2 parent"
  have mn: "mset new = add_mset parent (mset h2)" by (simp add: new_def mset_heappush)
  have ln: "length new = Suc (length h2)" by (simp add: new_def heappush_length)
  have hl: "heap_leaves new = heap_leaves heap"
    by (simp add: heap_leaves_def mn m1 m2 parent_def)
  have step: "merge_loop lt add heap = merge_loop lt add new"
    using gt by (subst merge_loop.simps) (simp add: p1 p2 new_def parent_def)
  show ?case
  proof (cases "2 \<le> length new")
    case True
    from "1.IH"[OF gt p1 refl p2 refl, folded parent_def new_def, OF True]
    show ?thesis by (simp add: step hl)
  next
    case False
    then have "h2 = []" using ln by (cases h2) auto
    then have "new = [parent]" using mn by (simp add: mset_single_list)
    then have "merge_loop lt add new = Inr parent"
      by (subst merge_loop.simps) (simp add: getitem_def)
    moreover have "heap_leaves new = mset (leaves parent)"
      using \<open>new = [parent]\<close> by (simp add: heap_leaves_def)
    ultimately show ?thesis using hl by (simp add: step parent_def)
  qed
qed

lemma heap_leaves_initial:
  "heap_leaves (map (\<lambda>(smb, p). HuffmanNode (Some smb) p None None) probs) = mset (map fst probs)"
  by (induction probs) (auto simp: heap_leaves_def)

lemma build_huffman_tree_ok:
  assumes "probs \<noteq> []"
  shows "\<exists>root. build_huffman_tree lt add probs = Inr (Some root) \<and> symbol root = None
           \<and> mset (leaves root) = mset (map fst probs)"
proof -
  define heap0 where "heap0 = map (\<lambda>(smb, p). HuffmanNode (Some smb) p None None) probs"
  define heap where "heap = heapify (node_lt lt) heap0"
  have ne: "heap0 \<noteq> []" using assms by (simp add: heap0_def)
  have mh: "mset heap = mset heap0" by (simp add: heap_def mset_heapify)
  then have hl: "heap_leaves heap = mset (map fst probs)"
    using heap_leaves_cong[OF mh] by (simp add: heap0_def heap_leaves_initial)
  have len: "length heap = length heap0" using mh by (metis size_mset)
  have b: "build_huffman_tree lt add probs =
      (if length heap = 1 then Inr (Some (HuffmanNode None (prob (heap ! 0)) (Some (heap ! 0)) None))
       else (case merge_loop lt add heap of Inl e \<Rightarrow> Inl e | Inr root \<Rightarrow> Inr (Some root)))"
    using ne unfolding build_huffman_tree_def Let_def heap0_def[symmetric] heap_def[symmetric]
    by simp
  show ?thesis
  proof (cases "length heap = 1")
    case True
    then obtain only where o: "heap = [only]" by (cases heap) auto
    then have "heap_leaves heap = mset (leaves only)" by (simp add: heap_leaves_def)
    then show ?thesis using True o hl by (simp add: b)
  next
    case False
    moreover have "0 < length heap" using ne len by simp
    ultimately have "2 \<le> length heap" by arith
    from merge_loop_ok[OF this, of lt add] show ?thesis using False hl by (auto simp: b)
  qed
qed

lemma counter_fold_keys:
  "fst ` set (fold (\<lambda>ch counts.
        AList.update ch (case map_of counts ch of None \<Rightarrow> 1 | Some c \<Rightarrow> c + (1::int)) counts) tx cs)
     = set tx \<union> fst ` set cs"
  by (induction tx arbitrary: cs) (auto simp: dom_update)

lemma counter_fold_distinct:
  "distinct (map fst cs) \<Longrightarrow>
   distinct (map fst (fold (\<lambda>ch counts.
        AList.update ch (case map_of counts ch of None \<Rightarrow> 1 | Some c \<Rightarrow> c + (1::int)) counts) tx cs))"
  by (induction tx arbitrary: cs) (auto simp: distinct_update)

lemma counter_keys: "set (map fst (counter tx)) = set tx"
  using counter_fold_keys[of tx "[]"] by (simp add: counter_def)

lemma counter_distinct: "distinct (map fst (counter tx))"
  using counter_fold_distinct[of "[]" tx] by (simp add: counter_def)

lemma probabilities_keys:
  "tx \<noteq> [] \<Longrightarrow> map fst (compute_symbol_probabilities true_div tx) = map fst (counter tx)"
  by (simp add: compute_symbol_probabilities_def Let_def case_prod_beta comp_def)

lemma codes_of_tree:
  assumes "distinct (leaves root)"
  shows "build_huffman_codes (Some root) = paths root []"
proof -
  have "distinct (map fst (paths root []))" using assms by (simp add: paths_leaves)
  then have "updates (paths root []) [] = [] @ paths root []"
    by (intro updates_fresh) simp_all
  then show ?thesis by (simp add: build_huffman_codes_def traverse_paths)
qed

lemma built_tree:
  assumes ne: "probs \<noteq> []" and d: "distinct (map fst probs)"
  shows "\<exists>root. build_huffman_tree lt add probs = Inr (Some root) \<and> symbol root = None
     \<and> build_huffman_codes (Some root) = paths root []
     \<and> distinct (map fst (paths root []))
     \<and> set (map fst (paths root [])) = set (map fst probs)"
proof -
  from build_huffman_tree_ok[OF ne, of lt add] obtain root where
    b: "build_huffman_tree lt add probs = Inr (Some root)" and s: "symbol root = None"
    and m: "mset (leaves root) = mset (map fst probs)" by blast
  have dl: "distinct (leaves root)" using m d by (metis mset_eq_imp_distinct_iff)
  have sl: "set (leaves root) = set (map fst probs)" using m by (metis mset_eq_setD)
  show ?thesis using b s codes_of_tree[OF dl] dl sl by (simp add: paths_leaves)
qed

text \<open>
  C7. For a non-empty distribution (a dictionary: its keys are distinct),
  \<open>build_huffman_tree\<close> returns a tree, and in the table \<open>build_huffman_codes\<close>
  builds from it no code is a prefix of another code and every code has length at least
  1; the table has exactly the symbols of the distribution, each once. A single-symbol
  distribution gives the one-entry table that maps the symbol to \<open>0\<close>.
\<close>

theorem huffman_codes_prefix_free:
  "(probs \<noteq> [] \<and> distinct (map fst probs) \<longrightarrow>
      (\<exists>root. build_huffman_tree lt add probs = Inr (Some root)
         \<and> prefix_free (map snd (build_huffman_codes (Some root)))
         \<and> (\<forall>c \<in> set (map snd (build_huffman_codes (Some root))). 1 \<le> length c)
         \<and> distinct (map fst (build_huffman_codes (Some root)))
         \<and> set (map fst (build_huffman_codes (Some root))) = set (map fst probs)))
   \<and> (\<exists>root. build_huffman_tree lt add [(s, p)] = Inr (Some root)
         \<and> build_huffman_codes (Some root) = [(s, ''0'')])"
proof (intro conjI impI)
  assume a: "probs \<noteq> [] \<and> distinct (map fst probs)"
  from built_tree[of probs lt add] a obtain root where
    b: "build_huffman_tree lt add probs = Inr (Some root)"
    and c: "build_huffman_codes (Some root) = paths root []"
    and d: "distinct (map fst (paths root []))"
    and k: "set (map fst (paths root [])) = set (map fst probs)" by blast
  have "\<forall>c \<in> set (map snd (paths root [])). 1 \<le> length c"
  proof
    fix c assume "c \<in> set (map snd (paths root []))"
    then obtain s where "(s, c) \<in> set (paths root [])" by auto
    from paths_nonempty[OF this] show "1 \<le> length c" by (cases c) auto
  qed
  then show "\<exists>root. build_huffman_tree lt add probs = Inr (Some root)
         \<and> prefix_free (map snd (build_huffman_codes (Some root)))
         \<and> (\<forall>c \<in> set (map snd (build_huffman_codes (Some root))). 1 \<le> length c)
         \<and> distinct (map fst (build_huffman_codes (Some root)))
         \<and> set (map fst (build_huffman_codes (Some root))) = set (map fst probs)"
    using b c d k paths_prefix_free[of root "[]"] by auto
next
  show "\<exists>root. build_huffman_tree lt add [(s, p)] = Inr (Some root)
         \<and> build_huffman_codes (Some root) = [(s, ''0'')]"
    by (simp add: build_huffman_tree_def heapify_def build_huffman_codes_def)
qed

theorem huffman_codes_prefix_free_witness:
  "([(CHR ''A'', 3 / 4), (CHR ''B'', 1 / (4::rat))] \<noteq> []
    \<and> distinct (map fst [(CHR ''A'', 3 / 4), (CHR ''B'', 1 / (4::rat))]))
   \<and> (\<exists>root. build_huffman_tree (<) (+) [(CHR ''A'', 3 / 4), (CHR ''B'', 1 / (4::rat))]
           = Inr (Some root)
         \<and> prefix_free (map snd (build_huffman_codes (Some root)))
         \<and> (\<forall>c \<in> set (map snd (build_huffman_codes (Some root))). 1 \<le> length c)
         \<and> distinct (map fst (build_huffman_codes (Some root)))
         \<and> set (map fst (build_huffman_codes (Some root)))
             = set (map fst [(CHR ''A'', 3 / 4), (CHR ''B'', 1 / (4::rat))]))"
proof -
  let ?probs = "[(CHR ''A'', 3 / 4), (CHR ''B'', 1 / (4::rat))]"
  have h: "?probs \<noteq> [] \<and> distinct (map fst ?probs)" by simp
  show ?thesis
    by (rule conjI[OF h mp[OF huffman_codes_prefix_free[of ?probs "(<)" "(+)", THEN conjunct1] h]])
qed

text \<open>
  C1. For every non-empty text, the tree built from the text's own distribution exists,
  \<open>huffman_encode\<close> with the table of that tree returns a bit string, and
  \<open>huffman_decode\<close> of that bit string with the tree is the text.
\<close>

theorem huffman_round_trip:
  assumes ne: "tx \<noteq> []"
  shows "\<exists>root enc.
     build_huffman_tree lt add (compute_symbol_probabilities true_div tx) = Inr (Some root)
     \<and> huffman_encode tx (build_huffman_codes (Some root)) = Inr enc
     \<and> huffman_decode enc (Some root) = tx"
proof -
  define probs where "probs = compute_symbol_probabilities true_div tx"
  have keys: "map fst probs = map fst (counter tx)"
    unfolding probs_def by (rule probabilities_keys[OF ne])
  have d: "distinct (map fst probs)" by (simp add: keys counter_distinct)
  have ks: "set (map fst probs) = set tx" by (simp only: keys counter_keys)
  then have pne: "probs \<noteq> []" using ne by auto
  from built_tree[OF pne d, of lt add] obtain root where
    b: "build_huffman_tree lt add probs = Inr (Some root)" and s: "symbol root = None"
    and c: "build_huffman_codes (Some root) = paths root []"
    and k: "set (map fst (paths root [])) = set (map fst probs)" by blast
  have "\<forall>ch \<in> set tx. map_of (paths root []) ch \<noteq> None"
    using k ks by (simp add: map_of_eq_None_iff)
  from encode_total[OF this] obtain enc where e: "huffman_encode tx (paths root []) = Inr enc"
    by blast
  have "huffman_decode_loop root (enc @ []) root [] = huffman_decode_loop root [] root ([] @ tx)"
    by (rule encode_decode_loop[OF s _ e]) (rule map_of_SomeD)
  then have "huffman_decode enc (Some root) = tx" by (simp add: huffman_decode_def)
  then show ?thesis using b c e unfolding probs_def by auto
qed

theorem huffman_round_trip_witness:
  "''AAAB'' \<noteq> []
   \<and> (\<exists>root enc.
        build_huffman_tree (<) (+)
          (compute_symbol_probabilities (\<lambda>a b. of_int a / (of_int b :: rat)) ''AAAB'')
          = Inr (Some root)
      \<and> huffman_encode ''AAAB'' (build_huffman_codes (Some root)) = Inr enc
      \<and> huffman_decode enc (Some root) = ''AAAB'')"
  using huffman_round_trip[of "''AAAB''" "(<)" "(+)" "\<lambda>a b. of_int a / (of_int b :: rat)"]
  by simp

end
